theory Spec2Isabelle
  imports Main "HOL-Library.Sublist"
begin

section \<open>Paths\<close>

text \<open>
  \<open>file_cleanup.py\<close> handles paths through \<open>pathlib.Path\<close>. A path is its anchor
  (absolute or not) and the list of its components, which is what pathlib keeps after
  parsing a string: empty components and \<open>.\<close> components are dropped, \<open>..\<close> is kept.
  (POSIX flavour; the special root of exactly two leading slashes is not distinguished.)
\<close>

datatype path = PurePath (is_absolute: bool) (parts: "string list")

fun split_slash :: "string \<Rightarrow> string \<Rightarrow> string list" where
  "split_slash acc [] = [acc]"
| "split_slash acc (c # cs) =
     (if c = CHR ''/'' then acc # split_slash [] cs else split_slash (acc @ [c]) cs)"

definition Path :: "string \<Rightarrow> path" where
  "Path s = PurePath (take 1 s = ''/'')
              (filter (\<lambda>w. w \<noteq> [] \<and> w \<noteq> ''.'') (split_slash [] s))"

text \<open>\<open>p / q\<close>: an absolute right operand replaces the left one.\<close>

definition joinpath :: "path \<Rightarrow> path \<Rightarrow> path" where
  "joinpath p q = (if is_absolute q then q else PurePath (is_absolute p) (parts p @ parts q))"

text \<open>\<open>p.name\<close>: the last component, the empty string when there is none.\<close>

definition name :: "path \<Rightarrow> string" where
  "name p = (if parts p = [] then [] else last (parts p))"

text \<open>\<open>p.parents\<close>: the proper ancestors, the nearest first.\<close>

definition parents :: "path \<Rightarrow> path list" where
  "parents p = map (PurePath (is_absolute p)) (rev (butlast (prefixes (parts p))))"

text \<open>\<open>d\<close> is a strict ancestor of \<open>p\<close>: same anchor, and the components of \<open>d\<close> are a
  proper prefix of those of \<open>p\<close>.\<close>

definition strict_ancestor :: "path \<Rightarrow> path \<Rightarrow> bool" where
  "strict_ancestor d p \<longleftrightarrow> is_absolute d = is_absolute p \<and> strict_prefix (parts d) (parts p)"

section \<open>Errors\<close>

datatype error =
    FileNotFoundError
  | NotADirectoryError
  | IsADirectoryError
  | PermissionError
  | DirectoryNotEmpty
  | OSError
  | RuntimeError
  | JSONDecodeError
  | AttributeError

section \<open>The retention predicate\<close>

text \<open>
  \<open>Path.resolve()\<close> reads the file system (working directory, symbolic links) and can
  raise; it is a parameter \<open>resolve\<close> of the model, returning the resolved path or the
  error raised.

  \<open>target_dir\<close> is \<open>None\<close> or a string; \<open>and target_dir\<close> tests that it is neither
  \<open>None\<close> nor empty.
\<close>

definition truthy :: "string option \<Rightarrow> bool" where
  "truthy t = (case t of None \<Rightarrow> False | Some s \<Rightarrow> s \<noteq> [])"

text \<open>Lines 59 to 63: the path of one keep-directory entry before it is resolved.\<close>

definition keep_dir_path :: "string option \<Rightarrow> string \<Rightarrow> path" where
  "keep_dir_path target_dir keep_dir =
     (case target_dir of
        None \<Rightarrow> Path keep_dir
      | Some t \<Rightarrow>
          if \<not> is_absolute (Path keep_dir) \<and> t \<noteq> [] then joinpath (Path t) (Path keep_dir)
          else Path keep_dir)"

text \<open>
  The loop of lines 58 to 76. It returns the verdict together with the list of the
  paths handed to \<open>resolve\<close>, in call order, so that what is and is not evaluated can be
  stated. An exception inside the \<open>try\<close> goes on to the next entry.
\<close>

fun keep_dirs_loop ::
  "(path \<Rightarrow> error + path) \<Rightarrow> path \<Rightarrow> string list \<Rightarrow> string option \<Rightarrow> bool \<times> path list" where
  "keep_dirs_loop resolve file_path [] target_dir = (False, [])"
| "keep_dirs_loop resolve file_path (keep_dir # keep_dirs) target_dir =
     (let kp = keep_dir_path target_dir keep_dir in
      case resolve kp of
        Inl e \<Rightarrow>
          (let (b, calls) = keep_dirs_loop resolve file_path keep_dirs target_dir
           in (b, kp # calls))
      | Inr kd \<Rightarrow>
          (case resolve file_path of
             Inl e \<Rightarrow>
               (let (b, calls) = keep_dirs_loop resolve file_path keep_dirs target_dir
                in (b, kp # file_path # calls))
           | Inr fp \<Rightarrow>
               if kd \<in> set (parents fp) \<or> fp = kd then (True, [kp, file_path])
               else (let (b, calls) = keep_dirs_loop resolve file_path keep_dirs target_dir
                     in (b, kp # file_path # calls))))"

definition should_keep_file_calls ::
  "(path \<Rightarrow> error + path) \<Rightarrow> path \<Rightarrow> string list \<Rightarrow> string list \<Rightarrow> string option
     \<Rightarrow> bool \<times> path list" where
  "should_keep_file_calls resolve file_path keep_files keep_dirs target_dir =
     (if name file_path \<in> set keep_files then (True, [])
      else keep_dirs_loop resolve file_path keep_dirs target_dir)"

definition should_keep_file ::
  "(path \<Rightarrow> error + path) \<Rightarrow> path \<Rightarrow> string list \<Rightarrow> string list \<Rightarrow> string option \<Rightarrow> bool" where
  "should_keep_file resolve file_path keep_files keep_dirs target_dir =
     fst (should_keep_file_calls resolve file_path keep_files keep_dirs target_dir)"

section \<open>The file system\<close>

text \<open>
  The file system is the list of its entries besides the root: each has the list of
  names leading to it from the root, its kind, and whether it is immutable (removing an
  immutable entry fails with a permission error). The list order is the order in which
  a directory listing yields the entries. Symbolic links are outside the model.

  What the environment fixes for the whole run is the record \<open>system\<close>: how paths
  resolve, the working directory that relative paths start from, what opening and
  decoding a configuration file gives (the decoded mapping, its members being lists of
  strings as the configuration format has them, or the exception raised), and the line
  that \<open>input\<close> reads.
\<close>

datatype kind = File | Dir

datatype entry = Entry (epath: "string list") (ekind: kind) (immutable: bool)

record system =
  resolve :: "path \<Rightarrow> error + path"
  cwd :: "string list"
  json_load :: "string \<Rightarrow> error + (string \<rightharpoonup> string list)"
  input :: string

text \<open>A place is a list of names from the root. The entry at a place, whether there is
  one, and whether it is a directory; the root has no entry and is a directory. These
  are about places, not paths: a path is first followed to the place it leads to.\<close>

definition lookup :: "entry list \<Rightarrow> string list \<Rightarrow> entry option" where
  "lookup es q = find (\<lambda>e. epath e = q) es"

definition path_exists :: "entry list \<Rightarrow> string list \<Rightarrow> bool" where
  "path_exists es q \<longleftrightarrow> q = [] \<or> lookup es q \<noteq> None"

definition is_dir :: "entry list \<Rightarrow> string list \<Rightarrow> bool" where
  "is_dir es q \<longleftrightarrow>
     q = [] \<or> (case lookup es q of None \<Rightarrow> False | Some e \<Rightarrow> ekind e = Dir)"

text \<open>
  How the operating system follows a path: component by component, from the root or
  from the working directory. Every component is looked up in a directory (what has
  been reached so far must be one), \<open>..\<close> leads to the parent, the root being its own
  parent, and \<open>.\<close> stays. The result is the list of names from the root that the path
  stands for in this file system; whether an entry is there is for the caller to find.
\<close>

fun follow :: "entry list \<Rightarrow> string list \<Rightarrow> string list \<Rightarrow> error + string list" where
  "follow es cur [] = Inr cur"
| "follow es cur (n # ns) =
     (if \<not> is_dir es cur then
        (if path_exists es cur then Inl NotADirectoryError else Inl FileNotFoundError)
      else if n = ''..'' then follow es (butlast cur) ns
      else if n = ''.'' then follow es cur ns
      else follow es (cur @ [n]) ns)"

definition locate :: "system \<Rightarrow> entry list \<Rightarrow> path \<Rightarrow> error + string list" where
  "locate sys es p = follow es (if is_absolute p then [] else cwd sys) (parts p)"

text \<open>An operation on a path: the path is followed, then the operation is done where it
  leads; when the path cannot be followed the operation fails with that error.\<close>

definition at :: "system \<Rightarrow> entry list \<Rightarrow> path \<Rightarrow> (string list \<Rightarrow> error + 'a) \<Rightarrow> error + 'a" where
  "at sys es p f = (case locate sys es p of Inl e \<Rightarrow> Inl e | Inr q \<Rightarrow> f q)"

text \<open>\<open>Path.exists()\<close>.\<close>

definition exists_path :: "system \<Rightarrow> entry list \<Rightarrow> path \<Rightarrow> bool" where
  "exists_path sys es p =
     (case locate sys es p of Inl e \<Rightarrow> False | Inr q \<Rightarrow> path_exists es q)"

definition children :: "entry list \<Rightarrow> string list \<Rightarrow> entry list" where
  "children es q = filter (\<lambda>e. epath e \<noteq> [] \<and> butlast (epath e) = q) es"

text \<open>A directory listing never includes the special names \<open>.\<close> and \<open>..\<close>.\<close>

definition special :: "string \<Rightarrow> bool" where
  "special n \<longleftrightarrow> n = ''.'' \<or> n = ''..''"

definition child_names :: "kind \<Rightarrow> entry list \<Rightarrow> string list \<Rightarrow> string list" where
  "child_names k es q =
     filter (\<lambda>n. \<not> special n)
       (map (\<lambda>e. last (epath e)) (filter (\<lambda>e. ekind e = k) (children es q)))"

text \<open>\<open>os.scandir\<close>, as \<open>os.walk\<close> uses it: the names of the sub-directories and the
  names of the other entries.\<close>

definition scandir :: "entry list \<Rightarrow> string list \<Rightarrow> error + (string list \<times> string list)" where
  "scandir es q =
     (if is_dir es q then Inr (child_names Dir es q, child_names File es q)
      else if path_exists es q then Inl NotADirectoryError
      else Inl FileNotFoundError)"

definition iterdir :: "entry list \<Rightarrow> string list \<Rightarrow> error + string list" where
  "iterdir es q =
     (if is_dir es q then
        Inr (filter (\<lambda>n. \<not> special n) (map (\<lambda>e. last (epath e)) (children es q)))
      else if path_exists es q then Inl NotADirectoryError
      else Inl FileNotFoundError)"

definition remove :: "entry list \<Rightarrow> string list \<Rightarrow> entry list" where
  "remove es q = filter (\<lambda>e. epath e \<noteq> q) es"

definition unlink :: "entry list \<Rightarrow> string list \<Rightarrow> error + entry list" where
  "unlink es q =
     (if q = [] then Inl IsADirectoryError
      else case lookup es q of
        None \<Rightarrow> Inl FileNotFoundError
      | Some e \<Rightarrow>
          if ekind e = Dir then Inl IsADirectoryError
          else if immutable e then Inl PermissionError
          else Inr (remove es q))"

definition rmdir :: "entry list \<Rightarrow> string list \<Rightarrow> error + entry list" where
  "rmdir es q =
     (if q = [] then Inl OSError
      else case lookup es q of
        None \<Rightarrow> Inl FileNotFoundError
      | Some e \<Rightarrow>
          if ekind e = File then Inl NotADirectoryError
          else if children es q \<noteq> [] then Inl DirectoryNotEmpty
          else if immutable e then Inl PermissionError
          else Inr (remove es q))"

section \<open>The run\<close>

text \<open>What the run prints, one event per \<open>print\<close>.\<close>

datatype event =
    TargetMissing string
  | DryRunFile path
  | DeletedFile path
  | DeleteFileFailed path error
  | DryRunDir path
  | DeletedDir path
  | DeleteDirFailed path error
  | Summary nat nat
  | ConfigLoaded string
  | ConfigNotFound string
  | ConfigBadJSON string
  | ConfigFailed string
  | Header string "string list" "string list" bool
  | Cancelled

text \<open>The arguments of \<open>delete_files_except\<close> once the defaults are filled in.\<close>

record call =
  target_dir :: string
  keep_files :: "string list"
  keep_dirs :: "string list"
  dry_run :: bool

text \<open>What changes during a run: the file system, the two lists of deleted paths and
  the output.\<close>

record state =
  fs :: "entry list"
  deleted_files :: "path list"
  deleted_dirs :: "path list"
  printed :: "event list"

definition say :: "event \<Rightarrow> state \<Rightarrow> state" where
  "say ev st = st\<lparr>printed := printed st @ [ev]\<rparr>"

text \<open>Lines 106 to 117: one file of a yielded directory.\<close>

definition file_step :: "system \<Rightarrow> call \<Rightarrow> path \<Rightarrow> string \<Rightarrow> state \<Rightarrow> state" where
  "file_step sys c root file st =
     (let file_path = joinpath root (Path file) in
      if \<not> should_keep_file (resolve sys) file_path (keep_files c) (keep_dirs c)
             (Some (target_dir c))
      then
        if dry_run c then say (DryRunFile file_path) st
        else
          (case at sys (fs st) file_path (unlink (fs st)) of
             Inr es \<Rightarrow>
               say (DeletedFile file_path)
                 (st\<lparr>fs := es, deleted_files := deleted_files st @ [file_path]\<rparr>)
           | Inl e \<Rightarrow> say (DeleteFileFailed file_path e) st)
      else st)"

text \<open>Lines 123 to 136: one sub-directory of a yielded directory. \<open>any(dir_path.iterdir())\<close>
  holds when the listing has an entry.\<close>

definition dir_step :: "system \<Rightarrow> call \<Rightarrow> path \<Rightarrow> string \<Rightarrow> state \<Rightarrow> state" where
  "dir_step sys c root dir_name st =
     (let dir_path = joinpath root (Path dir_name) in
      if \<not> should_keep_file (resolve sys) dir_path [] (keep_dirs c) (Some (target_dir c))
      then
        (case at sys (fs st) dir_path (iterdir (fs st)) of
           Inl e \<Rightarrow> say (DeleteDirFailed dir_path e) st
         | Inr listing \<Rightarrow>
             if listing = [] then
               if dry_run c then say (DryRunDir dir_path) st
               else
                 (case at sys (fs st) dir_path (rmdir (fs st)) of
                    Inr es \<Rightarrow>
                      say (DeletedDir dir_path)
                        (st\<lparr>fs := es, deleted_dirs := deleted_dirs st @ [dir_path]\<rparr>)
                  | Inl e \<Rightarrow> say (DeleteDirFailed dir_path e) st)
             else st)
      else st)"

text \<open>The two loops over \<open>os.walk\<close> differ in their bodies only: the first runs
  \<open>file_step\<close> over the files of each yielded directory, the second \<open>dir_step\<close> over
  its sub-directories.\<close>

datatype pass = Files | Dirs

definition body ::
  "system \<Rightarrow> call \<Rightarrow> pass \<Rightarrow> path \<Rightarrow> string list \<Rightarrow> string list \<Rightarrow> state \<Rightarrow> state" where
  "body sys c ps root dirs files st =
     (case ps of
        Files \<Rightarrow> fold (file_step sys c root) files st
      | Dirs \<Rightarrow> fold (dir_step sys c root) dirs st)"

text \<open>\<open>os.path.join(root, name)\<close> for a name of a listing, inside \<open>os.walk\<close>.\<close>

definition child :: "path \<Rightarrow> string \<Rightarrow> path" where
  "child root d = PurePath (is_absolute root) (parts root @ [d])"

text \<open>
  \<open>os.walk(target_dir, topdown=False)\<close> is a generator: it lists a directory when it
  reaches it, walks the sub-directories of the listing in turn, and only then yields the
  directory with its listing, at which point the loop body runs. \<open>walk\<close> is the
  generator together with the body run at each yield, so a listing sees what the bodies
  run before it have removed. A directory that cannot be listed yields nothing.

  The recursion is nested: the state handed to the walk of the next sub-directory is the
  result of the walk of the previous one. It terminates because no step adds an entry
  (a step only prunes the file system: it removes the entries of some paths); the
  lemmas up to the termination proof say so.
\<close>

definition under :: "entry list \<Rightarrow> string list \<Rightarrow> nat" where
  "under es q = length (filter (\<lambda>e. strict_prefix q (epath e)) es)"

definition pruned :: "string list set \<Rightarrow> entry list \<Rightarrow> entry list" where
  "pruned R es = filter (\<lambda>e. epath e \<notin> R) es"

definition prunes :: "string list set \<Rightarrow> entry list \<Rightarrow> entry list \<Rightarrow> bool" where
  "prunes S es es' \<longleftrightarrow> (\<exists>R. R \<subseteq> S \<and> es' = pruned R es)"

lemma prunes_refl [simp]: "prunes S es es"
  unfolding prunes_def pruned_def by (rule exI [of _ "{}"]) simp

lemma prunes_trans:
  assumes "prunes S es es'" and "prunes S' es' es''"
  shows "prunes (S \<union> S') es es''"
proof -
  from assms obtain R R' where "R \<subseteq> S" "es' = pruned R es" "R' \<subseteq> S'" "es'' = pruned R' es'"
    unfolding prunes_def by blast
  then have "R \<union> R' \<subseteq> S \<union> S'" "es'' = pruned (R \<union> R') es"
    by (auto simp: pruned_def intro: filter_cong)
  then show ?thesis unfolding prunes_def by blast
qed

lemma prunes_mono: "prunes S es es' \<Longrightarrow> S \<subseteq> S' \<Longrightarrow> prunes S' es es'"
  unfolding prunes_def by blast

lemma prunes_trans': "prunes S es es' \<Longrightarrow> prunes S' es' es'' \<Longrightarrow> S \<subseteq> T \<Longrightarrow> S' \<subseteq> T
    \<Longrightarrow> prunes T es es''"
  using prunes_trans [of S es es' S' es''] prunes_mono [of "S \<union> S'" es es'' T] by blast

lemma prunes_remove: "prunes {q} es (remove es q)"
  unfolding prunes_def pruned_def remove_def by (rule exI [of _ "{q}"]) simp

lemma prunes_unlink: "unlink es q = Inr es' \<Longrightarrow> prunes {q} es es'"
  by (auto simp: unlink_def prunes_remove split: if_splits option.splits)

lemma prunes_rmdir: "rmdir es q = Inr es' \<Longrightarrow> prunes {q} es es'"
  by (auto simp: rmdir_def prunes_remove split: if_splits option.splits)

lemma prunes_set: "prunes S es es' \<Longrightarrow> set es' \<subseteq> set es"
  unfolding prunes_def pruned_def by auto

lemma prunes_removed: "prunes S es es' \<Longrightarrow> e \<in> set es \<Longrightarrow> e \<notin> set es' \<Longrightarrow> epath e \<in> S"
  unfolding prunes_def pruned_def by auto

lemma prunes_kept: "prunes S es es' \<Longrightarrow> e \<in> set es \<Longrightarrow> epath e \<notin> S \<Longrightarrow> e \<in> set es'"
  unfolding prunes_def pruned_def by auto

lemma find_filter_same:
  assumes "\<And>x. x \<in> set xs \<Longrightarrow> P x \<Longrightarrow> Q x"
  shows "find P (filter Q xs) = find P xs"
  using assms by (induction xs) auto

lemma prunes_lookup: "prunes S es es' \<Longrightarrow> q \<notin> S \<Longrightarrow> lookup es' q = lookup es q"
  unfolding prunes_def pruned_def lookup_def by (auto intro!: find_filter_same)

lemma lookup_SomeD: "lookup es q = Some e \<Longrightarrow> e \<in> set es \<and> epath e = q"
  unfolding lookup_def find_Some_iff using nth_mem by blast

lemma lookup_pruned:
  "lookup (pruned R es) q = (if q \<in> R then None else lookup es q)"
proof (cases "q \<in> R")
  case True
  have "lookup (pruned R es) q = None"
  proof (rule ccontr)
    assume "lookup (pruned R es) q \<noteq> None"
    then obtain e where "lookup (pruned R es) q = Some e" by auto
    then have "e \<in> set (pruned R es)" "epath e = q" by (auto dest: lookup_SomeD)
    then show False using True by (simp add: pruned_def)
  qed
  then show ?thesis using True by simp
next
  case False
  have "prunes R es (pruned R es)" unfolding prunes_def by blast
  then show ?thesis using False by (simp add: prunes_lookup)
qed

lemma prunes_is_dir: "prunes S es es' \<Longrightarrow> is_dir es' q \<Longrightarrow> is_dir es q"
  unfolding prunes_def by (auto simp: is_dir_def lookup_pruned split: if_splits)

lemma prunes_subseq: "prunes S es es' \<Longrightarrow> subseq es' es"
  unfolding prunes_def pruned_def by auto

lemma prunes_follow:
  "prunes S es es' \<Longrightarrow> follow es' cur ns = Inr q \<Longrightarrow> follow es cur ns = Inr q"
proof (induction ns arbitrary: cur)
  case Nil
  then show ?case by simp
next
  case (Cons n ns)
  from Cons.prems(2) have d': "is_dir es' cur" by (auto split: if_splits)
  then have d: "is_dir es cur" using Cons.prems(1) by (rule prunes_is_dir [rotated])
  show ?case using Cons.prems d d' Cons.IH by (auto split: if_splits)
qed

lemma prunes_locate:
  "prunes S es es' \<Longrightarrow> locate sys es' p = Inr q \<Longrightarrow> locate sys es p = Inr q"
  unfolding locate_def by (rule prunes_follow)

lemma follow_append:
  "follow es cur (ns @ ms) = (case follow es cur ns of Inl e \<Rightarrow> Inl e | Inr q \<Rightarrow> follow es q ms)"
  by (induction ns arbitrary: cur) auto

lemma locate_child:
  "locate sys es (child root d) =
     (case locate sys es root of Inl e \<Rightarrow> Inl e | Inr q \<Rightarrow> follow es q [d])"
  by (simp add: locate_def child_def follow_append)

lemma locate_child_plain:
  assumes "locate sys es root = Inr q" and "is_dir es q" and "\<not> special d"
  shows "locate sys es (child root d) = Inr (q @ [d])"
  using assms by (simp add: locate_child special_def)

lemma locate_child_Inr:
  assumes "locate sys es (child root d) = Inr q'" and "\<not> special d"
  obtains q where "locate sys es root = Inr q" and "is_dir es q" and "q' = q @ [d]"
  using assms by (auto simp: locate_child special_def split: sum.splits if_splits)

lemma say_fs [simp]: "fs (say ev st) = fs st"
  by (simp add: say_def)

lemma file_step_prunes_any: "prunes UNIV (fs st) (fs (file_step sys c root file st))"
  by (auto simp: file_step_def Let_def at_def split: sum.splits
      dest!: prunes_unlink elim: prunes_mono)

lemma dir_step_prunes_any: "prunes UNIV (fs st) (fs (dir_step sys c root d st))"
  by (auto simp: dir_step_def Let_def at_def split: sum.splits
      dest!: prunes_rmdir elim: prunes_mono)

lemma fold_prunes_any:
  assumes "\<And>x s. prunes UNIV (fs s) (fs (f x s))"
  shows "prunes UNIV (fs st) (fs (fold f xs st))"
proof (induction xs arbitrary: st)
  case Nil
  show ?case by simp
next
  case (Cons x xs)
  have "prunes UNIV (fs st) (fs (f x st))" by (rule assms)
  moreover have "prunes UNIV (fs (f x st)) (fs (fold f xs (f x st)))" by (rule Cons.IH)
  ultimately show ?case by (auto intro: prunes_trans')
qed

lemma body_prunes_any: "prunes UNIV (fs st) (fs (body sys c ps root dirs files st))"
  by (cases ps) (simp_all add: body_def fold_prunes_any file_step_prunes_any dir_step_prunes_any)

lemma under_mono: "prunes S es es' \<Longrightarrow> under es' q \<le> under es q"
  unfolding under_def
  by (intro list_emb_length [where P = "(=)"] subseq_filter prunes_subseq)

lemma under_child:
  assumes "is_dir es (q @ [d])"
  shows "under es (q @ [d]) < under es q"
proof -
  from assms obtain e where e: "e \<in> set es" "epath e = q @ [d]"
    by (auto simp: is_dir_def split: option.splits dest: lookup_SomeD)
  let ?A = "\<lambda>e. strict_prefix (q @ [d]) (epath e)"
  let ?B = "\<lambda>e. strict_prefix q (epath e)"
  have imp: "\<And>x. ?A x \<Longrightarrow> ?B x"
    by (metis prefix_order.dual_order.strict_trans prefix_snocD prefix_order.order_refl)
  have "filter ?A es = filter ?A (filter ?B es)"
    using imp by (auto intro: filter_cong)
  moreover have "e \<in> set (filter ?B es)" "\<not> ?A e"
    using e by (auto intro: strict_prefixI')
  ultimately have "length (filter ?A es) < length (filter ?B es)"
    by (metis length_filter_less)
  then show ?thesis by (simp add: under_def)
qed

text \<open>The size of the walk of a directory, and of the walks of a list of names in it.\<close>

definition wsize :: "system \<Rightarrow> entry list \<Rightarrow> path \<Rightarrow> nat" where
  "wsize sys es root =
     (case locate sys es root of
        Inl e \<Rightarrow> 0
      | Inr q \<Rightarrow> if is_dir es q then 2 * under es q + 2 else 0)"

definition wsizes :: "system \<Rightarrow> entry list \<Rightarrow> path \<Rightarrow> string list \<Rightarrow> nat" where
  "wsizes sys es root ds = Suc (Max (insert 0 ((\<lambda>d. wsize sys es (child root d)) ` set ds)))"

lemma wsize_mono: "prunes S es es' \<Longrightarrow> wsize sys es' p \<le> wsize sys es p"
proof (cases "locate sys es' p")
  case (Inl e)
  then show ?thesis by (simp add: wsize_def)
next
  case (Inr q)
  assume p: "prunes S es es'"
  then have l: "locate sys es p = Inr q" using Inr by (rule prunes_locate)
  show ?thesis
  proof (cases "is_dir es' q")
    case True
    then have "is_dir es q" using p by (rule prunes_is_dir [rotated])
    then show ?thesis using True Inr l under_mono [OF p, of q] by (simp add: wsize_def)
  next
    case False
    then show ?thesis using Inr by (simp add: wsize_def)
  qed
qed

lemma wsize_in_wsizes: "d \<in> set ds \<Longrightarrow> wsize sys es (child root d) < wsizes sys es root ds"
  unfolding wsizes_def by (simp add: less_Suc_eq_le)

lemma wsizes_mono:
  assumes "prunes S es es'"
  shows "wsizes sys es' root ds \<le> wsizes sys es root (d # ds)"
proof -
  let ?A = "insert 0 ((\<lambda>d. wsize sys es (child root d)) ` set (d # ds))"
  have "\<forall>a \<in> insert 0 ((\<lambda>d. wsize sys es' (child root d)) ` set ds). a \<le> Max ?A"
  proof
    fix a assume "a \<in> insert 0 ((\<lambda>d. wsize sys es' (child root d)) ` set ds)"
    then consider "a = 0" | x where "x \<in> set ds" "a = wsize sys es' (child root x)" by auto
    then show "a \<le> Max ?A"
    proof cases
      case 1
      then show ?thesis by simp
    next
      case 2
      have "a \<le> wsize sys es (child root x)" using 2 wsize_mono [OF assms] by simp
      also have "\<dots> \<le> Max ?A" using 2 by (intro Max_ge) auto
      finally show ?thesis .
    qed
  qed
  then show ?thesis unfolding wsizes_def by simp
qed

lemma child_names_not_special: "d \<in> set (child_names k es q) \<Longrightarrow> \<not> special d"
  by (simp add: child_names_def)

lemma wsizes_listing:
  assumes "at sys es root (scandir es) = Inr (dirs, files)"
  shows "wsizes sys es root dirs < wsize sys es root"
proof -
  from assms obtain q where q: "locate sys es root = Inr q" "is_dir es q"
    and dirs: "dirs = child_names Dir es q"
    by (auto simp: at_def scandir_def split: sum.splits if_splits)
  have ws: "wsize sys es root = 2 * under es q + 2" using q by (simp add: wsize_def)
  have "\<forall>a \<in> insert 0 ((\<lambda>d. wsize sys es (child root d)) ` set dirs). a \<le> 2 * under es q"
  proof
    fix a assume "a \<in> insert 0 ((\<lambda>d. wsize sys es (child root d)) ` set dirs)"
    then consider "a = 0" | d where "d \<in> set dirs" "a = wsize sys es (child root d)" by auto
    then show "a \<le> 2 * under es q"
    proof cases
      case 1
      then show ?thesis by simp
    next
      case 2
      then have "\<not> special d" using dirs child_names_not_special by blast
      then have l: "locate sys es (child root d) = Inr (q @ [d])"
        using q by (intro locate_child_plain)
      show ?thesis
      proof (cases "is_dir es (q @ [d])")
        case True
        then show ?thesis using 2 l under_child [OF True] by (simp add: wsize_def)
      next
        case False
        then show ?thesis using 2 l by (simp add: wsize_def)
      qed
    qed
  qed
  then have "Max (insert 0 ((\<lambda>d. wsize sys es (child root d)) ` set dirs)) \<le> 2 * under es q"
    by simp
  then show ?thesis using ws by (simp add: wsizes_def less_Suc_eq_le)
qed

function walk :: "system \<Rightarrow> call \<Rightarrow> pass \<Rightarrow> path \<Rightarrow> state \<Rightarrow> state"
  and walk_dirs :: "system \<Rightarrow> call \<Rightarrow> pass \<Rightarrow> path \<Rightarrow> string list \<Rightarrow> state \<Rightarrow> state" where
  "walk sys c ps root st =
     (case at sys (fs st) root (scandir (fs st)) of
        Inl e \<Rightarrow> st
      | Inr (dirs, files) \<Rightarrow> body sys c ps root dirs files (walk_dirs sys c ps root dirs st))"
| "walk_dirs sys c ps root [] st = st"
| "walk_dirs sys c ps root (d # ds) st =
     walk_dirs sys c ps root ds (walk sys c ps (child root d) st)"
  by pat_completeness auto

lemma walk_dom_prunes:
  "walk_walk_dirs_dom (Inl (sys, c, ps, root, st)) \<Longrightarrow>
     prunes UNIV (fs st) (fs (walk sys c ps root st))"
  "walk_walk_dirs_dom (Inr (sys, c, ps, root, ds, st)) \<Longrightarrow>
     prunes UNIV (fs st) (fs (walk_dirs sys c ps root ds st))"
proof (induction sys c ps root st and sys c ps root ds st rule: walk_walk_dirs.pinduct)
  case (1 sys c ps root st)
  show ?case
  proof (cases "at sys (fs st) root (scandir (fs st))")
    case (Inl e)
    with 1(1) show ?thesis by (simp add: walk.psimps)
  next
    case (Inr b)
    obtain dirs files where b: "b = (dirs, files)" by (cases b)
    have "prunes UNIV (fs st) (fs (walk_dirs sys c ps root dirs st))"
      using 1(2) [OF Inr] b by simp
    moreover have "prunes UNIV (fs (walk_dirs sys c ps root dirs st))
        (fs (body sys c ps root dirs files (walk_dirs sys c ps root dirs st)))"
      by (rule body_prunes_any)
    ultimately have "prunes UNIV (fs st)
        (fs (body sys c ps root dirs files (walk_dirs sys c ps root dirs st)))"
      by (auto intro: prunes_trans')
    then show ?thesis using 1(1) Inr b by (simp add: walk.psimps)
  qed
next
  case (2 sys c ps root st)
  then show ?case by (simp add: walk_dirs.psimps)
next
  case (3 sys c ps root d ds st)
  have "prunes UNIV (fs st) (fs (walk_dirs sys c ps root ds (walk sys c ps (child root d) st)))"
    using 3(2) 3(3) by (auto intro: prunes_trans')
  then show ?case using 3(1) by (simp add: walk_dirs.psimps)
qed

termination walk
proof (relation "inv_image (less_than <*lex*> less_than)
    (\<lambda>x. case x of
        Inl (sys, c, ps, root, st) \<Rightarrow> (wsize sys (fs st) root, 0)
      | Inr (sys, c, ps, root, ds, st) \<Rightarrow> (wsizes sys (fs st) root ds, length ds))", goal_cases)
  case 1
  show ?case by (intro wf_inv_image wf_lex_prod wf_less_than)
next
  case (2 sys c ps root st b x y)
  then show ?case using wsizes_listing [of sys "fs st" root x y] by simp
next
  case (3 sys c ps root d ds st)
  show ?case using wsize_in_wsizes [of d "d # ds" sys "fs st" root] by simp
next
  case (4 sys c ps root d ds st)
  have "wsizes sys (fs (walk sys c ps (child root d) st)) root ds
          \<le> wsizes sys (fs st) root (d # ds)"
    by (rule wsizes_mono [OF walk_dom_prunes(1) [OF 4]])
  then show ?case by auto
qed

text \<open>\<open>for root, dirs, files in os.walk(target_dir, topdown=False)\<close>. The empty string
  names no directory that can be listed (although as a \<open>Path\<close> it is the working
  directory), so the walk of it yields nothing.\<close>

definition os_walk :: "system \<Rightarrow> call \<Rightarrow> pass \<Rightarrow> state \<Rightarrow> state" where
  "os_walk sys c ps st =
     (if target_dir c = [] then st else walk sys c ps (Path (target_dir c)) st)"

text \<open>\<open>delete_files_except\<close>, lines 81 to 140. At the early return of line 99 the two
  lists of deleted paths do not exist yet; the state returned has them empty.\<close>

definition delete_files_except ::
  "system \<Rightarrow> entry list \<Rightarrow> string \<Rightarrow> string list option \<Rightarrow> string list option \<Rightarrow> bool \<Rightarrow> state" where
  "delete_files_except sys es target keep_files_arg keep_dirs_arg dry =
     (let kf = (case keep_files_arg of None \<Rightarrow> [] | Some k \<Rightarrow> k);
          kd = (case keep_dirs_arg of None \<Rightarrow> [] | Some k \<Rightarrow> k);
          c = \<lparr>target_dir = target, keep_files = kf, keep_dirs = kd, dry_run = dry\<rparr>;
          st0 = \<lparr>fs = es, deleted_files = [], deleted_dirs = [], printed = []\<rparr>
      in
        if \<not> exists_path sys es (Path target) then say (TargetMissing target) st0
        else
          (let st1 = os_walk sys c Files st0;
               st2 = os_walk sys c Dirs st1
           in say (Summary (length (deleted_files st2)) (length (deleted_dirs st2))) st2))"

section \<open>Configuration file and command line\<close>

text \<open>\<open>load_config_file\<close>, lines 17 to 35: the two keep-lists and what is printed.
  \<open>config.get(key, [])\<close> is the member, or the empty list when the key is absent.\<close>

definition dict_get :: "(string \<rightharpoonup> string list) \<Rightarrow> string \<Rightarrow> string list" where
  "dict_get config k = (case config k of None \<Rightarrow> [] | Some v \<Rightarrow> v)"

definition load_config_file :: "system \<Rightarrow> string \<Rightarrow> (string list \<times> string list) \<times> event" where
  "load_config_file sys config_path =
     (case json_load sys config_path of
        Inr config \<Rightarrow>
          ((dict_get config ''keep_files'', dict_get config ''keep_dirs''),
           ConfigLoaded config_path)
      | Inl FileNotFoundError \<Rightarrow> (([], []), ConfigNotFound config_path)
      | Inl JSONDecodeError \<Rightarrow> (([], []), ConfigBadJSON config_path)
      | Inl e \<Rightarrow> (([], []), ConfigFailed config_path))"

text \<open>The parsed command line: the arguments of the run, and \<open>--config\<close>.\<close>

record args = call +
  config :: "string option"

text \<open>\<open>main\<close>, lines 193 to 221, after \<open>parse_args\<close>. The answer \<open>y\<close>, in either case,
  confirms a run that is not a dry run.\<close>

definition main :: "system \<Rightarrow> entry list \<Rightarrow> args \<Rightarrow> state" where
  "main sys es a =
     (let (kf, kd, out) =
            (case config a of
               None \<Rightarrow> (keep_files a, keep_dirs a, [])
             | Some config_path \<Rightarrow>
                 if config_path = [] then (keep_files a, keep_dirs a, [])
                 else
                   (let ((config_files, config_dirs), ev) = load_config_file sys config_path
                    in (keep_files a @ config_files, keep_dirs a @ config_dirs, [ev])));
          out = out @ [Header (target_dir a) kf kd (dry_run a)]
      in
        if \<not> dry_run a \<and> input sys \<noteq> ''y'' \<and> input sys \<noteq> ''Y'' then
          \<lparr>fs = es, deleted_files = [], deleted_dirs = [], printed = out @ [Cancelled]\<rparr>
        else
          (let st = delete_files_except sys es (target_dir a) (Some kf) (Some kd) (dry_run a)
           in st\<lparr>printed := out @ printed st\<rparr>))"

section \<open>Well-formed file systems and a system without symbolic links\<close>

text \<open>A name of an entry is not empty, is neither \<open>.\<close> nor \<open>..\<close> and has no slash, so
  that \<open>Path\<close> reads it as the single component it is.\<close>

definition valid_name :: "string \<Rightarrow> bool" where
  "valid_name n \<longleftrightarrow> n \<noteq> [] \<and> \<not> special n \<and> CHR ''/'' \<notin> set n"

text \<open>A well-formed file system: no entry for the root, valid names, one entry per
  path, and every entry lies in a directory (the root, or a directory entry).\<close>

definition names_ok :: "entry list \<Rightarrow> bool" where
  "names_ok es \<longleftrightarrow> (\<forall>e \<in> set es. epath e \<noteq> [] \<and> valid_name (last (epath e)))"

definition parent_closed :: "entry list \<Rightarrow> bool" where
  "parent_closed es \<longleftrightarrow> (\<forall>e \<in> set es. is_dir es (butlast (epath e)))"


text \<open>Without symbolic links, \<open>resolve\<close> makes the path absolute from the working
  directory and removes every \<open>..\<close> with the component before it; it does not raise.\<close>

definition normpath :: "string list \<Rightarrow> string list" where
  "normpath xs = fold (\<lambda>n acc. if n = ''..'' then butlast acc else acc @ [n]) xs []"

definition resolve_nolinks :: "string list \<Rightarrow> path \<Rightarrow> error + path" where
  "resolve_nolinks wd p =
     Inr (PurePath True (normpath (if is_absolute p then parts p else wd @ parts p)))"

definition plain_system :: system where
  "plain_system =
     \<lparr>resolve = resolve_nolinks [], cwd = [],
      json_load = (\<lambda>p. Inl FileNotFoundError), input = ''y''\<rparr>"

text \<open>The tree of the first scenario of the specification: \<open>/t/A.txt\<close>, \<open>/t/B.txt\<close> and
  \<open>/t/sub/C.txt\<close>.\<close>

definition scenario_tree :: "entry list" where
  "scenario_tree =
     [Entry [''t''] Dir False,
      Entry [''t'', ''A.txt''] File False,
      Entry [''t'', ''B.txt''] File False,
      Entry [''t'', ''sub''] Dir False,
      Entry [''t'', ''sub'', ''C.txt''] File False]"

section \<open>Where a run may remove entries\<close>

text \<open>The places strictly below a place of the file system.\<close>

definition below :: "string list \<Rightarrow> string list set" where
  "below q = {x. strict_prefix q x}"

text \<open>Where a path leads, as a set of at most one place, and what lies strictly below
  where it leads.\<close>

definition spot :: "system \<Rightarrow> entry list \<Rightarrow> path \<Rightarrow> string list set" where
  "spot sys es p = (case locate sys es p of Inl e \<Rightarrow> {} | Inr q \<Rightarrow> {q})"

definition reach :: "system \<Rightarrow> entry list \<Rightarrow> path \<Rightarrow> string list set" where
  "reach sys es p = (case locate sys es p of Inl e \<Rightarrow> {} | Inr q \<Rightarrow> below q)"

section \<open>Settled entries\<close>


definition step :: "system \<Rightarrow> call \<Rightarrow> pass \<Rightarrow> path \<Rightarrow> string \<Rightarrow> state \<Rightarrow> state" where
  "step sys c ps root n st =
     (case ps of Files \<Rightarrow> file_step sys c root n st | Dirs \<Rightarrow> dir_step sys c root n st)"







section \<open>The retention predicate: name rule, containment, unresolvable entries\<close>

lemma in_parents_iff: "d \<in> set (parents p) \<longleftrightarrow> strict_ancestor d p"
proof -
  have "set (butlast (prefixes xs)) = {ys. strict_prefix ys xs}" for xs :: "string list"
  proof (cases xs rule: rev_cases)
    case Nil
    then show ?thesis by simp
  next
    case (snoc ys y)
    then show ?thesis by (auto simp: strict_prefix_def)
  qed
  then show ?thesis
    by (cases d) (auto simp: parents_def strict_ancestor_def)
qed

lemma keep_dirs_loop_match:
  assumes "d \<in> set kds"
    and "rsv (keep_dir_path tdir d) = Inr rd"
    and "rsv p = Inr rp"
    and "rd = rp \<or> strict_ancestor rd rp"
  shows "fst (keep_dirs_loop rsv p kds tdir)"
  using assms
  by (induction kds)
    (auto simp: Let_def in_parents_iff split: sum.splits prod.splits)

lemma keep_dirs_loop_skip:
  assumes "rsv (keep_dir_path tdir d) = Inl e"
  shows "fst (keep_dirs_loop rsv p (pre @ d # post) tdir)
       = fst (keep_dirs_loop rsv p (pre @ post) tdir)"
  using assms
  by (induction pre) (auto simp: Let_def split: sum.splits prod.splits)

text \<open>
  Claim C3. Let \<open>d\<close> be any entry of the keep-directory list and \<open>p\<close> any input path.
  If the path of \<open>d\<close> (joined to the target directory when \<open>d\<close> is relative, as
  \<open>keep_dir_path\<close> does) resolves to \<open>rd\<close>, \<open>p\<close> resolves to \<open>rp\<close>, and \<open>rd\<close> is \<open>rp\<close> or
  a strict ancestor of \<open>rp\<close> at any depth, then \<open>should_keep_file\<close> answers keep,
  whatever the other entries and the keep-file list are.
\<close>

theorem directory_containment:
  assumes "d \<in> set kds"
    and "rsv (keep_dir_path tdir d) = Inr rd"
    and "rsv p = Inr rp"
    and "rd = rp \<or> strict_ancestor rd rp"
  shows "should_keep_file rsv p kfs kds tdir"
  using keep_dirs_loop_match [OF assms]
  by (simp add: should_keep_file_def should_keep_file_calls_def)

theorem directory_containment_witness:
  "should_keep_file (resolve_nolinks []) (PurePath True [''t'', ''docs'', ''a'', ''readme.md''])
     [] [''src'', ''docs''] (Some ''/t'')"
  using directory_containment [of "''docs''" "[''src'', ''docs'']" "resolve_nolinks []"
      "Some ''/t''" "PurePath True [''t'', ''docs'']"
      "PurePath True [''t'', ''docs'', ''a'', ''readme.md'']"
      "PurePath True [''t'', ''docs'', ''a'', ''readme.md'']" "[]"]
  by (simp add: resolve_nolinks_def normpath_def keep_dir_path_def Path_def joinpath_def
      strict_ancestor_def)

text \<open>
  Claim C4. For every path \<open>p\<close> whose base name is in the keep-file list, whatever its
  depth and whether it is a file or a directory, \<open>should_keep_file\<close> answers keep, and
  it does so before the containment rule is evaluated: no path is handed to \<open>resolve\<close>.
\<close>

theorem name_rule_first:
  assumes "name p \<in> set kfs"
  shows "should_keep_file rsv p kfs kds tdir
       \<and> should_keep_file_calls rsv p kfs kds tdir = (True, [])"
  using assms by (simp add: should_keep_file_def should_keep_file_calls_def)

theorem name_rule_first_witness:
  "should_keep_file (\<lambda>p. Inl OSError) (PurePath True [''t'', ''a'', ''b'', ''A.txt''])
     [''A.txt''] [''docs''] (Some ''/t'')
   \<and> should_keep_file_calls (\<lambda>p. Inl OSError) (PurePath True [''t'', ''a'', ''b'', ''A.txt''])
       [''A.txt''] [''docs''] (Some ''/t'') = (True, [])"
  using name_rule_first [of "PurePath True [''t'', ''a'', ''b'', ''A.txt'']" "[''A.txt'']"
      "\<lambda>p. Inl OSError" "[''docs'']" "Some ''/t''"]
  by (simp add: name_def)

text \<open>
  Claim C9. A keep-directory entry whose resolution raises is skipped: the verdict for
  any path is the verdict the list without that entry gives, so the entry neither makes
  the predicate raise (the predicate has a verdict for every input) nor keeps an entry
  after it from matching.
\<close>

theorem unresolvable_entry_skipped:
  assumes "rsv (keep_dir_path tdir d) = Inl e"
  shows "should_keep_file rsv p kfs (pre @ d # post) tdir
       = should_keep_file rsv p kfs (pre @ post) tdir"
  using assms keep_dirs_loop_skip [of rsv tdir d e p pre post]
  by (simp add: should_keep_file_def should_keep_file_calls_def)

theorem unresolvable_entry_skipped_witness:
  "should_keep_file
     (\<lambda>p. if p = PurePath True [''t'', ''bad''] then Inl RuntimeError else resolve_nolinks [] p)
     (PurePath True [''t'', ''docs'', ''x'']) [] ([''src''] @ ''bad'' # [''docs'']) (Some ''/t'')
   = should_keep_file
     (\<lambda>p. if p = PurePath True [''t'', ''bad''] then Inl RuntimeError else resolve_nolinks [] p)
     (PurePath True [''t'', ''docs'', ''x'']) [] ([''src''] @ [''docs'']) (Some ''/t'')"
  using unresolvable_entry_skipped [of
      "\<lambda>p. if p = PurePath True [''t'', ''bad''] then Inl RuntimeError else resolve_nolinks [] p"
      "Some ''/t''" "''bad''" RuntimeError "PurePath True [''t'', ''docs'', ''x'']" "[]"
      "[''src'']" "[''docs'']"]
  by (simp add: keep_dir_path_def Path_def joinpath_def)

section \<open>The run: missing target, dry run\<close>

text \<open>
  Claim C7. When the target directory does not exist at the start (following the path
  as the operating system does, \<open>..\<close> included, leads to no entry), the run returns at
  once: the file system is as it was, nothing is deleted, and the only line printed is
  the error (no deletion and no summary is reported).
\<close>

theorem target_missing_aborts:
  assumes "\<not> exists_path sys es (Path target)"
  shows "delete_files_except sys es target kfa kda dry =
           \<lparr>fs = es, deleted_files = [], deleted_dirs = [], printed = [TargetMissing target]\<rparr>"
  using assms by (simp add: delete_files_except_def say_def Let_def)

theorem target_missing_aborts_witness:
  "delete_files_except plain_system scenario_tree ''/nowhere'' (Some [''A.txt'']) None False =
     \<lparr>fs = scenario_tree, deleted_files = [], deleted_dirs = [],
      printed = [TargetMissing ''/nowhere'']\<rparr>"
  using target_missing_aborts [of plain_system scenario_tree "''/nowhere''" "Some [''A.txt'']"
      None False]
  by (simp add: exists_path_def path_exists_def is_dir_def lookup_def locate_def Path_def
      scenario_tree_def plain_system_def)

text \<open>A step that leaves the file system and the two lists of deleted paths alone.\<close>

definition untouched :: "state \<Rightarrow> state \<Rightarrow> bool" where
  "untouched st st' \<longleftrightarrow>
     fs st' = fs st \<and> deleted_files st' = deleted_files st \<and> deleted_dirs st' = deleted_dirs st"

lemma untouched_refl [simp]: "untouched st st"
  by (simp add: untouched_def)

lemma untouched_trans: "untouched a b \<Longrightarrow> untouched b c \<Longrightarrow> untouched a c"
  by (simp add: untouched_def)

lemma untouched_say [simp]: "untouched st (say ev st)"
  by (simp add: untouched_def say_def)

lemma untouched_fold:
  assumes "\<And>x s. untouched s (f x s)"
  shows "untouched st (fold f xs st)"
proof (induction xs arbitrary: st)
  case Nil
  show ?case by simp
next
  case (Cons x xs)
  have "untouched st (f x st)" by (rule assms)
  moreover have "untouched (f x st) (fold f xs (f x st))" by (rule Cons.IH)
  ultimately show ?case by (auto intro: untouched_trans)
qed

lemma file_step_dry: "dry_run c \<Longrightarrow> untouched st (file_step sys c root file st)"
  by (simp add: file_step_def Let_def)

lemma dir_step_dry: "dry_run c \<Longrightarrow> untouched st (dir_step sys c root d st)"
  by (simp add: dir_step_def Let_def split: sum.splits)

lemma body_dry: "dry_run c \<Longrightarrow> untouched st (body sys c ps root dirs files st)"
  by (cases ps) (simp_all add: body_def untouched_fold file_step_dry dir_step_dry)

lemma walk_dry:
  "dry_run c \<Longrightarrow> untouched st (walk sys c ps root st)"
  "dry_run c \<Longrightarrow> untouched st (walk_dirs sys c ps root ds st)"
proof (induction sys c ps root st and sys c ps root ds st rule: walk_walk_dirs.induct)
  case (1 sys c ps root st)
  show ?case
  proof (cases "at sys (fs st) root (scandir (fs st))")
    case (Inl e)
    then show ?thesis by simp
  next
    case (Inr b)
    obtain dirs files where b: "b = (dirs, files)" by (cases b)
    have "untouched st (walk_dirs sys c ps root dirs st)"
      using 1 Inr b by simp
    moreover have "untouched (walk_dirs sys c ps root dirs st)
        (body sys c ps root dirs files (walk_dirs sys c ps root dirs st))"
      using 1(2) by (rule body_dry)
    ultimately show ?thesis using Inr b by (auto intro: untouched_trans)
  qed
next
  case (2 sys c ps root st)
  show ?case by simp
next
  case (3 sys c ps root d ds st)
  then show ?case by (auto intro: untouched_trans)
qed

lemma os_walk_dry: "dry_run c \<Longrightarrow> untouched st (os_walk sys c ps st)"
  by (simp add: os_walk_def walk_dry del: walk.simps)

text \<open>
  Claim C2. For every file system, target and keep-lists, a dry run changes nothing:
  the entries after the run are the entries before it, and no file and no directory is
  recorded as deleted.
\<close>

theorem dry_run_no_mutation:
  "fs (delete_files_except sys es target kfa kda True) = es
   \<and> deleted_files (delete_files_except sys es target kfa kda True) = []
   \<and> deleted_dirs (delete_files_except sys es target kfa kda True) = []"
proof -
  define c where "c = \<lparr>target_dir = target,
    keep_files = (case kfa of None \<Rightarrow> [] | Some k \<Rightarrow> k),
    keep_dirs = (case kda of None \<Rightarrow> [] | Some k \<Rightarrow> k), dry_run = True\<rparr>"
  define st0 where "st0 = \<lparr>fs = es, deleted_files = [], deleted_dirs = [], printed = []\<rparr>"
  have dry: "dry_run c" by (simp add: c_def)
  have "untouched st0 (os_walk sys c Files st0)" using dry by (rule os_walk_dry)
  moreover have "untouched (os_walk sys c Files st0) (os_walk sys c Dirs (os_walk sys c Files st0))"
    using dry by (rule os_walk_dry)
  ultimately have "untouched st0 (os_walk sys c Dirs (os_walk sys c Files st0))"
    by (rule untouched_trans)
  then show ?thesis
    by (simp add: delete_files_except_def Let_def c_def [symmetric] st0_def [symmetric]
        untouched_def say_def) (simp add: st0_def)
qed

section \<open>Configuration failures\<close>

text \<open>
  Claim C8. When opening or decoding the configuration file raises (the file is
  missing, the document is malformed, or anything else), \<open>load_config_file\<close> prints a
  message and returns two empty lists, and \<open>main\<close> goes on to the run with the keep-lists
  of the command line alone. The witness is the run with keep-files \<open>A.txt\<close> and a
  configuration path that does not exist.
\<close>

theorem config_degrade:
  assumes "config a = Some p" and "p \<noteq> []" and "json_load sys p = Inl e"
    and "dry_run a \<or> input sys = ''y'' \<or> input sys = ''Y''"
  shows "fst (load_config_file sys p) = ([], [])
       \<and> main sys es a =
           (let st = delete_files_except sys es (target_dir a) (Some (keep_files a))
                       (Some (keep_dirs a)) (dry_run a)
            in st\<lparr>printed :=
                 [snd (load_config_file sys p),
                  Header (target_dir a) (keep_files a) (keep_dirs a) (dry_run a)] @ printed st\<rparr>)"
proof -
  have l: "fst (load_config_file sys p) = ([], [])"
    using assms(3) by (cases e) (simp_all add: load_config_file_def)
  obtain ev where ev: "load_config_file sys p = (([], []), ev)"
    using l by (cases "load_config_file sys p") auto
  show ?thesis
    using assms(1,2,4) l by (auto simp: main_def ev Let_def)
qed

theorem config_degrade_witness:
  "main plain_system scenario_tree
     \<lparr>target_dir = ''/t'', keep_files = [''A.txt''], keep_dirs = [], dry_run = False,
      config = Some ''missing.json''\<rparr>
   = (let st = delete_files_except plain_system scenario_tree ''/t'' (Some [''A.txt'']) (Some []) False
      in st\<lparr>printed := [ConfigNotFound ''missing.json'', Header ''/t'' [''A.txt''] [] False]
                @ printed st\<rparr>)"
  using config_degrade [of "\<lparr>target_dir = ''/t'', keep_files = [''A.txt''], keep_dirs = [],
      dry_run = False, config = Some ''missing.json''\<rparr>" "''missing.json''" plain_system
      FileNotFoundError scenario_tree]
  by (simp add: plain_system_def load_config_file_def)

section \<open>What a run removes\<close>

declare walk.simps [simp del]

lemma names_ok_prunes: "prunes S es es' \<Longrightarrow> names_ok es \<Longrightarrow> names_ok es'"
  using prunes_set unfolding names_ok_def by blast

lemma split_slash_plain: "CHR ''/'' \<notin> set n \<Longrightarrow> split_slash acc n = [acc @ n]"
  by (induction n arbitrary: acc) auto

lemma Path_valid_name: "valid_name n \<Longrightarrow> Path n = PurePath False [n]"
  by (cases n) (auto simp: Path_def valid_name_def special_def split_slash_plain)

lemma joinpath_name: "valid_name n \<Longrightarrow> joinpath root (Path n) = child root n"
  by (simp add: Path_valid_name joinpath_def child_def)

lemma child_names_valid:
  "names_ok es \<Longrightarrow> n \<in> set (child_names k es q) \<Longrightarrow> valid_name n"
  by (auto simp: child_names_def children_def names_ok_def)

lemma snoc_below [simp]: "q @ [n] \<in> below q"
  by (simp add: below_def strict_prefixI')

lemma below_snoc: "below (q @ [n]) \<subseteq> below q"
  unfolding below_def
  by (metis (no_types, lifting) Collect_mono prefix_order.dual_order.strict_trans prefix_snocD
      prefix_order.order_refl)

lemma self_not_below [simp]: "q \<notin> below q"
  by (simp add: below_def)

lemma spot_mono: "prunes S es es' \<Longrightarrow> spot sys es' p \<subseteq> spot sys es p"
  by (auto simp: spot_def split: sum.splits dest: prunes_locate)

lemma reach_mono: "prunes S es es' \<Longrightarrow> reach sys es' p \<subseteq> reach sys es p"
  by (auto simp: reach_def split: sum.splits dest: prunes_locate)

lemma spot_child: "\<not> special n \<Longrightarrow> spot sys es (child root n) \<subseteq> reach sys es root"
  by (auto simp: spot_def reach_def split: sum.splits elim!: locate_child_Inr)

lemma reach_child: "\<not> special n \<Longrightarrow> reach sys es (child root n) \<subseteq> reach sys es root"
proof (cases "locate sys es (child root n)")
  case (Inl e)
  then show ?thesis by (simp add: reach_def)
next
  case (Inr q')
  assume "\<not> special n"
  then obtain q where "locate sys es root = Inr q" "q' = q @ [n]"
    using Inr by (auto elim!: locate_child_Inr)
  then show ?thesis using Inr below_snoc [of q n] by (simp add: reach_def)
qed

lemma valid_not_special: "valid_name n \<Longrightarrow> \<not> special n"
  by (simp add: valid_name_def)

lemma file_step_prunes:
  "valid_name f \<Longrightarrow>
     prunes (spot sys (fs st) (child root f)) (fs st) (fs (file_step sys c root f st))"
  by (auto simp: file_step_def Let_def joinpath_name at_def spot_def
      dest: prunes_unlink split: sum.splits)

lemma dir_step_prunes:
  "valid_name d \<Longrightarrow>
     prunes (spot sys (fs st) (child root d)) (fs st) (fs (dir_step sys c root d st))"
  by (auto simp: dir_step_def Let_def joinpath_name at_def spot_def
      dest: prunes_rmdir split: sum.splits)

lemma fold_prunes:
  assumes step: "\<And>x s. x \<in> set xs \<Longrightarrow> prunes (g (fs s) x) (fs s) (fs (f x s))"
    and mono: "\<And>x S es es'. prunes S es es' \<Longrightarrow> g es' x \<subseteq> g es x"
  shows "prunes (\<Union>x \<in> set xs. g (fs st) x) (fs st) (fs (fold f xs st))"
  using step
proof (induction xs arbitrary: st)
  case Nil
  show ?case by simp
next
  case (Cons x xs)
  let ?s1 = "f x st"
  have p1: "prunes (g (fs st) x) (fs st) (fs ?s1)" by (rule Cons.prems) simp
  have p2: "prunes (\<Union>y \<in> set xs. g (fs ?s1) y) (fs ?s1) (fs (fold f xs ?s1))"
    by (rule Cons.IH) (simp add: Cons.prems)
  have "(\<Union>y \<in> set xs. g (fs ?s1) y) \<subseteq> (\<Union>y \<in> set (x # xs). g (fs st) y)"
    using mono [OF p1] by auto
  moreover have "g (fs st) x \<subseteq> (\<Union>y \<in> set (x # xs). g (fs st) y)" by simp
  ultimately have "prunes (\<Union>y \<in> set (x # xs). g (fs st) y) (fs st) (fs (fold f xs ?s1))"
    using p1 p2 by (intro prunes_trans' [OF p1 p2])
  then show ?case by simp
qed

lemma body_prunes:
  assumes "\<forall>n \<in> set dirs \<union> set files. valid_name n"
  shows "prunes (reach sys (fs st) root) (fs st) (fs (body sys c ps root dirs files st))"
proof (cases ps)
  case Files
  have "prunes (\<Union>n \<in> set files. spot sys (fs st) (child root n)) (fs st)
          (fs (fold (file_step sys c root) files st))"
    using assms by (intro fold_prunes [where g = "\<lambda>es n. spot sys es (child root n)"]
        file_step_prunes spot_mono) simp
  moreover have "(\<Union>n \<in> set files. spot sys (fs st) (child root n)) \<subseteq> reach sys (fs st) root"
    using assms spot_child valid_not_special by blast
  ultimately show ?thesis using Files by (auto simp: body_def elim: prunes_mono)
next
  case Dirs
  have "prunes (\<Union>n \<in> set dirs. spot sys (fs st) (child root n)) (fs st)
          (fs (fold (dir_step sys c root) dirs st))"
    using assms by (intro fold_prunes [where g = "\<lambda>es n. spot sys es (child root n)"]
        dir_step_prunes spot_mono) simp
  moreover have "(\<Union>n \<in> set dirs. spot sys (fs st) (child root n)) \<subseteq> reach sys (fs st) root"
    using assms spot_child valid_not_special by blast
  ultimately show ?thesis using Dirs by (auto simp: body_def elim: prunes_mono)
qed

lemma scandir_valid:
  assumes "names_ok es" and "at sys es root (scandir es) = Inr (dirs, files)"
  shows "\<forall>n \<in> set dirs \<union> set files. valid_name n"
  using assms
  by (auto simp: at_def scandir_def split: sum.splits if_splits dest: child_names_valid)

lemma walk_prunes:
  "names_ok (fs st) \<Longrightarrow> prunes (reach sys (fs st) root) (fs st) (fs (walk sys c ps root st))"
  "names_ok (fs st) \<Longrightarrow>
     prunes (\<Union>d \<in> set ds. reach sys (fs st) (child root d)) (fs st)
       (fs (walk_dirs sys c ps root ds st))"
proof (induction sys c ps root st and sys c ps root ds st rule: walk_walk_dirs.induct)
  case (1 sys c ps root st)
  show ?case
  proof (cases "at sys (fs st) root (scandir (fs st))")
    case (Inl e)
    then show ?thesis by (simp add: walk.simps)
  next
    case (Inr b)
    obtain dirs files where b: "b = (dirs, files)" by (cases b)
    let ?st1 = "walk_dirs sys c ps root dirs st"
    have p1: "prunes (\<Union>d \<in> set dirs. reach sys (fs st) (child root d)) (fs st) (fs ?st1)"
      using 1 Inr b by simp
    have valid: "\<forall>n \<in> set dirs \<union> set files. valid_name n"
      using scandir_valid [OF "1.prems"] Inr b by simp
    have p2: "prunes (reach sys (fs ?st1) root) (fs ?st1) (fs (body sys c ps root dirs files ?st1))"
      using valid by (rule body_prunes)
    have s1: "(\<Union>d \<in> set dirs. reach sys (fs st) (child root d)) \<subseteq> reach sys (fs st) root"
      using valid reach_child valid_not_special by blast
    have s2: "reach sys (fs ?st1) root \<subseteq> reach sys (fs st) root"
      using p1 by (rule reach_mono)
    have "prunes (reach sys (fs st) root) (fs st) (fs (body sys c ps root dirs files ?st1))"
      using p1 p2 s1 s2 by (rule prunes_trans')
    then show ?thesis using Inr b by (simp add: walk.simps)
  qed
next
  case (2 sys c ps root st)
  show ?case by simp
next
  case (3 sys c ps root d ds st)
  let ?st1 = "walk sys c ps (child root d) st"
  let ?T = "\<Union>d \<in> set (d # ds). reach sys (fs st) (child root d)"
  have p1: "prunes (reach sys (fs st) (child root d)) (fs st) (fs ?st1)"
    using 3 by simp
  then have "names_ok (fs ?st1)" using "3.prems" by (rule names_ok_prunes)
  then have p2: "prunes (\<Union>d \<in> set ds. reach sys (fs ?st1) (child root d)) (fs ?st1)
      (fs (walk_dirs sys c ps root ds ?st1))"
    by (rule 3)
  have s1: "reach sys (fs st) (child root d) \<subseteq> ?T" by simp
  have s2: "(\<Union>d \<in> set ds. reach sys (fs ?st1) (child root d)) \<subseteq> ?T"
    using reach_mono [OF p1] by auto
  have "prunes ?T (fs st) (fs (walk_dirs sys c ps root ds ?st1))"
    using p1 p2 s1 s2 by (rule prunes_trans')
  then show ?case by simp
qed

lemma os_walk_prunes:
  "names_ok (fs st) \<Longrightarrow>
     prunes (reach sys (fs st) (Path (target_dir c))) (fs st) (fs (os_walk sys c ps st))"
  by (simp add: os_walk_def walk_prunes)

lemma run_prunes:
  assumes "names_ok es"
  shows "prunes (reach sys es (Path target)) es (fs (delete_files_except sys es target kfa kda dry))"
proof -
  define c where "c = \<lparr>target_dir = target,
    keep_files = (case kfa of None \<Rightarrow> [] | Some k \<Rightarrow> k),
    keep_dirs = (case kda of None \<Rightarrow> [] | Some k \<Rightarrow> k), dry_run = dry\<rparr>"
  define st0 where "st0 = \<lparr>fs = es, deleted_files = [], deleted_dirs = [], printed = []\<rparr>"
  have t: "target_dir c = target" by (simp add: c_def)
  have e: "fs st0 = es" by (simp add: st0_def)
  let ?st1 = "os_walk sys c Files st0"
  have p1: "prunes (reach sys es (Path target)) es (fs ?st1)"
    using os_walk_prunes [of st0 sys c Files] assms by (simp add: t e)
  then have "names_ok (fs ?st1)" using assms by (rule names_ok_prunes)
  then have p2: "prunes (reach sys (fs ?st1) (Path target)) (fs ?st1) (fs (os_walk sys c Dirs ?st1))"
    using os_walk_prunes [of ?st1 sys c Dirs] by (simp add: t)
  have "prunes (reach sys es (Path target)) es (fs (os_walk sys c Dirs ?st1))"
    using p1 p2 subset_refl reach_mono [OF p1] by (rule prunes_trans')
  then show ?thesis
    by (simp add: delete_files_except_def Let_def c_def [symmetric] st0_def [symmetric] e)
qed

text \<open>
  Claim C10. The target directory itself is never deleted: in a file system with valid
  names, where the target path leads to an entry at the start (following it as the
  operating system does, \<open>..\<close> included), every entry that a run removes lies strictly
  below that entry, so the directory is still there after the run (with the kind it had),
  also when it ends the run empty and matches no keep-list entry. The statement is about
  the directory and not about the path: a target such as \<open>/t/sub/..\<close> leads to \<open>/t\<close> at the
  start and leads nowhere once the run has removed \<open>sub\<close>, while \<open>/t\<close> is still there.
\<close>

theorem target_survives:
  assumes "names_ok es" and "locate sys es (Path target) = Inr q" and "path_exists es q"
  shows "lookup (fs (delete_files_except sys es target kfa kda dry)) q = lookup es q
       \<and> path_exists (fs (delete_files_except sys es target kfa kda dry)) q
       \<and> (\<forall>e \<in> set es. e \<notin> set (fs (delete_files_except sys es target kfa kda dry)) \<longrightarrow>
             strict_prefix q (epath e))"
proof -
  let ?es' = "fs (delete_files_except sys es target kfa kda dry)"
  have "prunes (reach sys es (Path target)) es ?es'" using assms(1) by (rule run_prunes)
  then have p: "prunes (below q) es ?es'" using assms(2) by (simp add: reach_def)
  then have l: "lookup ?es' q = lookup es q" by (rule prunes_lookup) simp
  moreover have "path_exists ?es' q" using assms(3) l by (simp add: path_exists_def)
  moreover have "\<forall>e \<in> set es. e \<notin> set ?es' \<longrightarrow> strict_prefix q (epath e)"
    using prunes_removed [OF p] by (auto simp: below_def)
  ultimately show ?thesis by blast
qed

lemma fold_invariant:
  assumes "\<And>x s. I (fs s) \<Longrightarrow> I (fs (f x s))"
  shows "I (fs st) \<Longrightarrow> I (fs (fold f xs st))"
  by (induction xs arbitrary: st) (auto intro: assms)

lemma body_invariant:
  assumes "\<And>n s. I (fs s) \<Longrightarrow> I (fs (file_step sys c root n s))"
    and "\<And>n s. I (fs s) \<Longrightarrow> I (fs (dir_step sys c root n s))"
    and "I (fs st)"
  shows "I (fs (body sys c ps root dirs files st))"
proof (cases ps)
  case Files
  have "I (fs (fold (file_step sys c root) files st))"
    using assms(3) by (rule fold_invariant [rotated]) (rule assms(1))
  then show ?thesis by (simp add: body_def Files)
next
  case Dirs
  have "I (fs (fold (dir_step sys c root) dirs st))"
    using assms(3) by (rule fold_invariant [rotated]) (rule assms(2))
  then show ?thesis by (simp add: body_def Dirs)
qed

lemma walk_invariant:
  assumes f: "\<And>root n s. I (fs s) \<Longrightarrow> I (fs (file_step sys c root n s))"
    and d: "\<And>root n s. I (fs s) \<Longrightarrow> I (fs (dir_step sys c root n s))"
  shows "I (fs st) \<Longrightarrow> I (fs (walk sys c ps root st))"
    and "I (fs st) \<Longrightarrow> I (fs (walk_dirs sys c ps root ds st))"
  using f d
proof (induction sys c ps root st and sys c ps root ds st rule: walk_walk_dirs.induct)
  case (1 sys c ps root st)
  show ?case
  proof (cases "at sys (fs st) root (scandir (fs st))")
    case (Inl e)
    then show ?thesis using "1.prems"(1) by (simp add: walk.simps)
  next
    case (Inr b)
    obtain dirs files where b: "b = (dirs, files)" by (cases b)
    have i1: "I (fs (walk_dirs sys c ps root dirs st))"
      using 1 Inr b by blast
    have "I (fs (body sys c ps root dirs files (walk_dirs sys c ps root dirs st)))"
      using i1 "1.prems"(2,3) by (rule body_invariant [rotated 2])
    then show ?thesis using Inr b by (simp add: walk.simps)
  qed
next
  case (2 sys c ps root st)
  then show ?case by simp
next
  case (3 sys c ps root d ds st)
  have "I (fs (walk sys c ps (child root d) st))" using 3 by blast
  then have "I (fs (walk_dirs sys c ps root ds (walk sys c ps (child root d) st)))"
    using 3 by blast
  then show ?case by simp
qed

lemma lookup_remove: "b \<noteq> q \<Longrightarrow> lookup (remove es q) b = lookup es b"
  using prunes_lookup [OF prunes_remove, of b q es] by simp

lemma is_dir_remove: "b \<noteq> q \<Longrightarrow> is_dir (remove es q) b = is_dir es b"
  by (simp add: is_dir_def lookup_remove)

lemma set_remove: "set (remove es q) = {e \<in> set es. epath e \<noteq> q}"
  by (auto simp: remove_def)

lemma parent_closed_unlink:
  assumes "parent_closed es" and "unlink es q = Inr es'"
  shows "parent_closed es'"
proof -
  from assms(2) obtain e where q: "q \<noteq> []" "lookup es q = Some e" "ekind e = File"
    and es': "es' = remove es q"
    by (auto simp: unlink_def split: if_splits option.splits kind.splits) (metis kind.exhaust)
  have nd: "\<not> is_dir es q" using q by (simp add: is_dir_def)
  show ?thesis
    unfolding parent_closed_def
  proof
    fix x assume "x \<in> set es'"
    then have x: "x \<in> set es" by (simp add: es' set_remove)
    then have "is_dir es (butlast (epath x))" using assms(1) by (simp add: parent_closed_def)
    moreover from this nd have "butlast (epath x) \<noteq> q" by auto
    ultimately show "is_dir es' (butlast (epath x))" by (simp add: es' is_dir_remove)
  qed
qed

lemma parent_closed_rmdir:
  assumes "parent_closed es" and "rmdir es q = Inr es'"
  shows "parent_closed es'"
proof -
  from assms(2) have q: "q \<noteq> []" "children es q = []" and es': "es' = remove es q"
    by (auto simp: rmdir_def split: if_splits option.splits)
  show ?thesis
    unfolding parent_closed_def
  proof
    fix x assume "x \<in> set es'"
    then have x: "x \<in> set es" by (simp add: es' set_remove)
    then have d: "is_dir es (butlast (epath x))" using assms(1) by (simp add: parent_closed_def)
    have "butlast (epath x) \<noteq> q"
    proof (cases "epath x = []")
      case True
      then show ?thesis using q(1) by simp
    next
      case False
      then show ?thesis using q(2) x by (auto simp: children_def filter_empty_conv)
    qed
    then show "is_dir es' (butlast (epath x))" using d by (simp add: es' is_dir_remove)
  qed
qed

lemma file_step_parent_closed:
  "parent_closed (fs s) \<Longrightarrow> parent_closed (fs (file_step sys c root n s))"
  by (auto simp: file_step_def Let_def at_def split: sum.splits dest: parent_closed_unlink)

lemma dir_step_parent_closed:
  "parent_closed (fs s) \<Longrightarrow> parent_closed (fs (dir_step sys c root n s))"
  by (auto simp: dir_step_def Let_def at_def split: sum.splits dest: parent_closed_rmdir)

lemma os_walk_invariant:
  assumes "\<And>root n s. I (fs s) \<Longrightarrow> I (fs (file_step sys c root n s))"
    and "\<And>root n s. I (fs s) \<Longrightarrow> I (fs (dir_step sys c root n s))"
    and "I (fs st)"
  shows "I (fs (os_walk sys c ps st))"
proof (cases "target_dir c = []")
  case True
  then show ?thesis using assms(3) by (simp add: os_walk_def)
next
  case False
  have "I (fs (walk sys c ps (Path (target_dir c)) st))"
    by (rule walk_invariant(1) [OF assms(1) assms(2) assms(3)])
  then show ?thesis using False by (simp add: os_walk_def)
qed

lemma run_invariant:
  assumes f: "\<And>c root n s. I (fs s) \<Longrightarrow> I (fs (file_step sys c root n s))"
    and d: "\<And>c root n s. I (fs s) \<Longrightarrow> I (fs (dir_step sys c root n s))"
    and "I es"
  shows "I (fs (delete_files_except sys es target kfa kda dry))"
proof -
  define c where "c = \<lparr>target_dir = target,
    keep_files = (case kfa of None \<Rightarrow> [] | Some k \<Rightarrow> k),
    keep_dirs = (case kda of None \<Rightarrow> [] | Some k \<Rightarrow> k), dry_run = dry\<rparr>"
  define st0 where "st0 = \<lparr>fs = es, deleted_files = [], deleted_dirs = [], printed = []\<rparr>"
  have e: "fs st0 = es" by (simp add: st0_def)
  have i0: "I (fs st0)" using assms(3) by (simp only: e)
  have i1: "I (fs (os_walk sys c Files st0))"
    by (rule os_walk_invariant [OF f d i0])
  have i2: "I (fs (os_walk sys c Dirs (os_walk sys c Files st0)))"
    by (rule os_walk_invariant [OF f d i1])
  show ?thesis
  proof (cases "exists_path sys es (Path target)")
    case True
    then show ?thesis
      using i2
      by (simp add: delete_files_except_def Let_def c_def [symmetric] st0_def [symmetric])
  next
    case False
    then show ?thesis
      using i0
      by (simp add: delete_files_except_def Let_def c_def [symmetric] st0_def [symmetric])
  qed
qed

lemma parent_closed_ancestors:
  assumes "parent_closed es"
  shows "e \<in> set es \<Longrightarrow> strict_prefix p (epath e) \<Longrightarrow> is_dir es p"
proof (induction "length (epath e)" arbitrary: e rule: less_induct)
  case less
  let ?b = "butlast (epath e)"
  have ne: "epath e \<noteq> []" using less.prems(2) by auto
  have b: "is_dir es ?b" using assms less.prems(1) by (simp add: parent_closed_def)
  have pb: "prefix p ?b"
    using less.prems(2) ne by (metis append_butlast_last_id prefix_snoc strict_prefix_def)
  show ?case
  proof (cases "p = ?b")
    case True
    then show ?thesis using b by simp
  next
    case False
    then have sp: "strict_prefix p ?b" using pb by (simp add: strict_prefix_def)
    then have "?b \<noteq> []" by auto
    then obtain d where d: "lookup es ?b = Some d" using b by (auto simp: is_dir_def split: option.splits)
    then have "d \<in> set es" "epath d = ?b" by (auto dest: lookup_SomeD)
    moreover have "length ?b < length (epath e)" using ne by simp
    ultimately show ?thesis using less.hyps [of d] sp by simp
  qed
qed

lemma rmdir_nonempty: "children es q \<noteq> [] \<Longrightarrow> \<exists>e. rmdir es q = Inl e"
  by (simp add: rmdir_def split: option.splits)

lemma dir_step_nonempty:
  assumes "locate sys (fs st) (joinpath root (Path d)) = Inr q"
    and "children (fs st) q \<noteq> []"
  shows "untouched st (dir_step sys c root d st)"
  using assms rmdir_nonempty [OF assms(2)]
  by (auto simp: dir_step_def Let_def at_def split: sum.splits)

text \<open>
  Claim C1. No directory that contains an entry is removed, in a dry run or not. At the
  moment a directory is evaluated: when its path leads to a place that has an entry, the
  directory step leaves the file system and the list of deleted directories as they are.
  Over a whole run: in a file system where every entry lies in a directory, every ancestor
  of every entry that is left after the run is still a directory after the run, so no
  directory with something left in it has been removed.
\<close>

theorem no_nonempty_directory_removed:
  "(locate sys (fs st) (joinpath root (Path d)) = Inr q \<and> children (fs st) q \<noteq> [] \<longrightarrow>
      fs (dir_step sys c root d st) = fs st
      \<and> deleted_dirs (dir_step sys c root d st) = deleted_dirs st)
   \<and> (parent_closed es \<longrightarrow>
        (\<forall>e \<in> set (fs (delete_files_except sys es target kfa kda dry)).
           \<forall>p. strict_prefix p (epath e) \<longrightarrow>
             is_dir (fs (delete_files_except sys es target kfa kda dry)) p))"
proof (intro conjI impI ballI allI)
  assume a: "locate sys (fs st) (joinpath root (Path d)) = Inr q \<and> children (fs st) q \<noteq> []"
  then have "untouched st (dir_step sys c root d st)"
    using dir_step_nonempty [of sys st root d q c] by simp
  then show "fs (dir_step sys c root d st) = fs st"
    and "deleted_dirs (dir_step sys c root d st) = deleted_dirs st"
    by (simp_all add: untouched_def)
next
  fix e p
  assume pc: "parent_closed es"
    and e: "e \<in> set (fs (delete_files_except sys es target kfa kda dry))"
    and p: "strict_prefix p (epath e)"
  have "parent_closed (fs (delete_files_except sys es target kfa kda dry))"
    by (rule run_invariant [OF file_step_parent_closed dir_step_parent_closed pc])
  then show "is_dir (fs (delete_files_except sys es target kfa kda dry)) p"
    using e p by (rule parent_closed_ancestors)
qed

lemmas run_eval =
  delete_files_except_def os_walk_def walk.simps scandir_def is_dir_def lookup_def
  child_names_def children_def body_def file_step_def dir_step_def should_keep_file_def
  should_keep_file_calls_def name_def joinpath_def Path_def child_def locate_def at_def
  exists_path_def special_def
  path_exists_def iterdir_def say_def plain_system_def Let_def unlink_def rmdir_def remove_def

lemma scenario_dotdot:
  "fs (delete_files_except plain_system scenario_tree ''/t/sub/..'' None None False)
     = [Entry [''t''] Dir False]"
  by (simp add: run_eval scenario_tree_def)

theorem target_survives_witness:
  "locate plain_system scenario_tree (Path ''/t/sub/..'') = Inr [''t'']
   \<and> fs (delete_files_except plain_system scenario_tree ''/t/sub/..'' None None False)
       = [Entry [''t''] Dir False]
   \<and> path_exists
        (fs (delete_files_except plain_system scenario_tree ''/t/sub/..'' None None False))
        [''t'']
   \<and> \<not> exists_path plain_system
        (fs (delete_files_except plain_system scenario_tree ''/t/sub/..'' None None False))
        (Path ''/t/sub/..'')"
proof -
  let ?r = "delete_files_except plain_system scenario_tree ''/t/sub/..'' None None False"
  have t: "locate plain_system scenario_tree (Path ''/t/sub/..'') = Inr [''t'']"
    by (simp add: locate_def Path_def scenario_tree_def is_dir_def lookup_def)
  have h1: "names_ok scenario_tree"
    by (simp add: names_ok_def valid_name_def special_def scenario_tree_def)
  have h3: "path_exists scenario_tree [''t'']"
    by (simp add: path_exists_def lookup_def scenario_tree_def)
  have "path_exists (fs ?r) [''t'']"
    using target_survives [OF h1 t h3, of None None False] by simp
  moreover have "\<not> exists_path plain_system (fs ?r) (Path ''/t/sub/..'')"
    by (simp add: scenario_dotdot exists_path_def locate_def Path_def is_dir_def lookup_def
        path_exists_def)
  ultimately show ?thesis using t scenario_dotdot by simp
qed

lemma scenario_keep_c:
  "fs (delete_files_except plain_system scenario_tree ''/t'' (Some [''C.txt'']) None False)
     = [Entry [''t''] Dir False, Entry [''t'', ''sub''] Dir False,
        Entry [''t'', ''sub'', ''C.txt''] File False]"
  by (simp add: run_eval scenario_tree_def)

theorem no_nonempty_directory_removed_witness:
  "fs (dir_step plain_system
         \<lparr>target_dir = ''/t'', keep_files = [], keep_dirs = [], dry_run = False\<rparr>
         (PurePath True [''t'']) ''sub''
         \<lparr>fs = scenario_tree, deleted_files = [], deleted_dirs = [], printed = []\<rparr>)
     = scenario_tree
   \<and> is_dir (fs (delete_files_except plain_system scenario_tree ''/t'' (Some [''C.txt'']) None False))
        [''t'', ''sub'']"
proof -
  let ?c = "\<lparr>target_dir = ''/t'', keep_files = [], keep_dirs = [], dry_run = False\<rparr>"
  let ?st = "\<lparr>fs = scenario_tree, deleted_files = [], deleted_dirs = [], printed = []\<rparr>"
  let ?r = "delete_files_except plain_system scenario_tree ''/t'' (Some [''C.txt'']) None False"
  note inst = no_nonempty_directory_removed [of plain_system ?st "PurePath True [''t'']" "''sub''"
      "[''t'', ''sub'']" ?c scenario_tree "''/t''" "Some [''C.txt'']" None False]
  have l: "locate plain_system (fs ?st) (joinpath (PurePath True [''t'']) (Path ''sub''))
      = Inr [''t'', ''sub'']"
    by (simp add: locate_def joinpath_def Path_def scenario_tree_def is_dir_def lookup_def)
  have ne: "children (fs ?st) [''t'', ''sub''] \<noteq> []"
    by (simp add: children_def scenario_tree_def)
  have pc: "parent_closed scenario_tree"
    by (simp add: parent_closed_def scenario_tree_def is_dir_def lookup_def)
  have e: "Entry [''t'', ''sub'', ''C.txt''] File False \<in> set (fs ?r)"
    by (simp add: scenario_keep_c)
  have "fs (dir_step plain_system ?c (PurePath True [''t'']) ''sub'' ?st) = scenario_tree"
    using inst l ne by simp
  moreover have "is_dir (fs ?r) [''t'', ''sub'']"
    using inst pc e by (auto simp: strict_prefix_def)
  ultimately show ?thesis by simp
qed

text \<open>
  Claim C5, evaluated on the tree of the scenario with keep-files \<open>A.txt\<close>. The dry run
  prints the candidates \<open>sub/C.txt\<close> and \<open>B.txt\<close> and the summary, and no candidate for
  \<open>sub\<close>: the file pass has deleted nothing, so the directory pass finds \<open>sub\<close> with
  \<open>C.txt\<close> in it and skips it. The run that is not a dry run does delete \<open>sub\<close>.
\<close>

theorem dry_run_misses_emptied_directory:
  "printed (delete_files_except plain_system scenario_tree ''/t'' (Some [''A.txt'']) None True)
     = [DryRunFile (PurePath True [''t'', ''sub'', ''C.txt'']),
        DryRunFile (PurePath True [''t'', ''B.txt'']),
        Summary 0 0]
   \<and> deleted_dirs (delete_files_except plain_system scenario_tree ''/t'' (Some [''A.txt'']) None False)
     = [PurePath True [''t'', ''sub'']]"
  by (simp add: run_eval scenario_tree_def)

section \<open>The second run\<close>








lemma child_names_entry:
  assumes "n \<in> set (child_names k es q)"
  obtains e where "e \<in> set es" and "epath e = q @ [n]" and "ekind e = k"
proof -
  from assms obtain e where "e \<in> set es" "ekind e = k" "epath e \<noteq> []" "butlast (epath e) = q"
    "last (epath e) = n"
    by (auto simp: child_names_def children_def)
  then have "epath e = q @ [n]" by (metis append_butlast_last_id)
  then show ?thesis using that \<open>e \<in> set es\<close> \<open>ekind e = k\<close> by blast
qed








lemma step_parent_closed:
  "parent_closed (fs s) \<Longrightarrow> parent_closed (fs (step sys c ps root n s))"
  by (cases ps) (simp_all add: step_def file_step_parent_closed dir_step_parent_closed)

































end
